theory Spec2Isabelle
  imports Main "HOL-Library.Multiset"
begin

section \<open>The city formatter: data model\<close>

text \<open>
  The program is \<^verbatim>\<open>src/libtest/src/data/formatter.py\<close>: a module-level script that
  reads \<^verbatim>\<open>./US/cities.txt\<close>, groups the city names by state code in a dict and
  writes \<^verbatim>\<open>./tmp.txt\<close>, one \<^verbatim>\<open>code;city\<close> line per record, every group ordered
  from the longest name to the shortest.

  Python strings are modelled as HOL strings, so characters range over the code points
  0 to 255. A file is the text that Python's text layer decodes from it.
\<close>

text \<open>The exceptions the script can raise: the input file is missing, or the tuple
  unpacking of line 15 gets a number of fields other than two. \<open>KeyError\<close> is what
  \<^verbatim>\<open>states[code]\<close> raises for an absent key.\<close>

datatype error = FileNotFoundError | ValueError | KeyError

text \<open>The two paths the script touches; \<open>None\<close> is a file that does not exist.\<close>

record fs =
  cities_txt :: "string option"
  tmp_txt :: "string option"

text \<open>The dict \<^verbatim>\<open>states\<close>: Python dicts iterate in insertion order, so the dict is an
  association list with the keys in the order of their insertion.\<close>

type_synonym states = "(string \<times> string list) list"

subsection \<open>Characters\<close>

definition LF :: char where
  "LF = CHR 0x0A"

definition CR :: char where
  "CR = CHR 0x0D"

definition SEP :: char where
  "SEP = CHR '';''"

text \<open>\<^verbatim>\<open>str.isspace\<close> on one character, for the code points below 256.\<close>

definition isspace :: "char \<Rightarrow> bool" where
  "isspace c \<longleftrightarrow> c \<in> set [CHR 0x09, CHR 0x0A, CHR 0x0B, CHR 0x0C, CHR 0x0D,
     CHR 0x1C, CHR 0x1D, CHR 0x1E, CHR 0x1F, CHR 0x20, CHR 0x85, CHR 0xA0]"

section \<open>The loader (lines 9 to 11)\<close>

text \<open>\<^verbatim>\<open>open(path)\<close> reads in text mode with universal newlines: \<^verbatim>\<open>\r\n\<close> and a lone
  \<^verbatim>\<open>\r\<close> reach the program as \<^verbatim>\<open>\n\<close>.\<close>

fun universal_newlines :: "string \<Rightarrow> string" where
  "universal_newlines [] = []"
| "universal_newlines [c] = (if c = CR then [LF] else [c])"
| "universal_newlines (c # d # cs) =
     (if c = CR then
        (if d = LF then LF # universal_newlines cs else LF # universal_newlines (d # cs))
      else c # universal_newlines (d # cs))"

text \<open>\<^verbatim>\<open>f.readlines()\<close>: the text cut after every \<^verbatim>\<open>\n\<close>, each line keeping its
  terminator; a last line without terminator is kept when it is not empty.\<close>

fun readlines :: "string \<Rightarrow> string list" where
  "readlines [] = []"
| "readlines (c # cs) =
     (if c = LF then [c] # readlines cs
      else (case readlines cs of [] \<Rightarrow> [[c]] | l # ls \<Rightarrow> (c # l) # ls))"

text \<open>\<^verbatim>\<open>c.strip()\<close>: whitespace removed at both ends.\<close>

definition strip :: "string \<Rightarrow> string" where
  "strip s = rev (dropWhile isspace (rev (dropWhile isspace s)))"

text \<open>\<^verbatim>\<open>content = [c.strip() for c in f.readlines()]\<close>\<close>

definition content :: "string \<Rightarrow> string list" where
  "content raw = map strip (readlines (universal_newlines raw))"

section \<open>The parser and grouper (lines 13 to 17)\<close>

text \<open>\<^verbatim>\<open>line.split(";")\<close>: the fields between all the separators, one more than there are
  separators.\<close>

fun split :: "char \<Rightarrow> string \<Rightarrow> string list" where
  "split sep [] = [[]]"
| "split sep (c # cs) =
     (if c = sep then [] # split sep cs
      else (case split sep cs of [] \<Rightarrow> [[c]] | f # fs \<Rightarrow> (c # f) # fs))"

text \<open>\<^verbatim>\<open>code, name = ...\<close>: unpacking into two names raises \<^verbatim>\<open>ValueError\<close> unless there
  are exactly two fields.\<close>

fun unpack2 :: "string list \<Rightarrow> error + (string \<times> string)" where
  "unpack2 [code, name] = Inr (code, name)"
| "unpack2 _ = Inl ValueError"

definition parse_line :: "string \<Rightarrow> error + (string \<times> string)" where
  "parse_line line = unpack2 (split SEP line)"

text \<open>\<^verbatim>\<open>states.setdefault(code, [])\<close>: a new key goes to the end, an existing key keeps
  its value and its place.\<close>

fun setdefault :: "states \<Rightarrow> string \<Rightarrow> string list \<Rightarrow> states" where
  "setdefault [] k d = [(k, d)]"
| "setdefault ((k', v) # kvs) k d =
     (if k' = k then (k', v) # kvs else (k', v) # setdefault kvs k d)"

text \<open>\<^verbatim>\<open>states[code].append(name)\<close>: the lookup raises \<^verbatim>\<open>KeyError\<close> for an absent key.\<close>

fun getitem_append :: "states \<Rightarrow> string \<Rightarrow> string \<Rightarrow> error + states" where
  "getitem_append [] k x = Inl KeyError"
| "getitem_append ((k', v) # kvs) k x =
     (if k' = k then Inr ((k', v @ [x]) # kvs)
      else (case getitem_append kvs k x of
              Inl e \<Rightarrow> Inl e
            | Inr kvs' \<Rightarrow> Inr ((k', v) # kvs')))"

text \<open>The loop of lines 14 to 17; an exception leaves the loop and the script.\<close>

fun group_loop :: "states \<Rightarrow> string list \<Rightarrow> error + states" where
  "group_loop st [] = Inr st"
| "group_loop st (line # rest) =
     (case parse_line line of
        Inl e \<Rightarrow> Inl e
      | Inr (code, name) \<Rightarrow>
          (case getitem_append (setdefault st code []) code name of
             Inl e \<Rightarrow> Inl e
           | Inr st' \<Rightarrow> group_loop st' rest))"

section \<open>The sorter and writer (lines 19 to 23)\<close>

text \<open>\<^verbatim>\<open>sorted(v, key=..., reverse=...)\<close>: Python's sort is stable, and with
  \<^verbatim>\<open>reverse=True\<close> it sorts the reversed list and reverses the result, so that equal keys
  keep their original order.\<close>

definition sorted_py :: "('a \<Rightarrow> nat) \<Rightarrow> bool \<Rightarrow> 'a list \<Rightarrow> 'a list" where
  "sorted_py key reverse v =
     (if reverse then rev (sort_key key (rev v)) else sort_key key v)"

text \<open>\<^verbatim>\<open>open("./tmp.txt", "w")\<close> creates or truncates the file; \<^verbatim>\<open>w.write(s)\<close> appends
  to it.\<close>

definition open_w :: "fs \<Rightarrow> fs" where
  "open_w f = f\<lparr>tmp_txt := Some []\<rparr>"

definition w_write :: "string \<Rightarrow> fs \<Rightarrow> fs" where
  "w_write s f = f\<lparr>tmp_txt := Some ((case tmp_txt f of None \<Rightarrow> [] | Some t \<Rightarrow> t) @ s)\<rparr>"

text \<open>\<^verbatim>\<open>f"{k};{city}\n"\<close>\<close>

definition fmt :: "string \<Rightarrow> string \<Rightarrow> string" where
  "fmt k city = k @ [SEP] @ city @ [LF]"

text \<open>The inner loop of lines 22 and 23, and the outer loop of lines 20 to 23.\<close>

fun city_loop :: "string \<Rightarrow> string list \<Rightarrow> fs \<Rightarrow> fs" where
  "city_loop k [] f = f"
| "city_loop k (city # v) f = city_loop k v (w_write (fmt k city) f)"

fun items_loop :: "states \<Rightarrow> fs \<Rightarrow> fs" where
  "items_loop [] f = f"
| "items_loop ((k, v) # kvs) f =
     items_loop kvs (city_loop k (sorted_py length True v) f)"

text \<open>The whole script. The grouping loop runs to its end before the output file is
  opened.\<close>

definition formatter :: "fs \<Rightarrow> (error + unit) \<times> fs" where
  "formatter f =
     (case cities_txt f of
        None \<Rightarrow> (Inl FileNotFoundError, f)
      | Some raw \<Rightarrow>
          (case group_loop [] (content raw) of
             Inl e \<Rightarrow> (Inl e, f)
           | Inr st \<Rightarrow> (Inr (), items_loop st (open_w f))))"

section \<open>Notions of the specification\<close>

text \<open>The record the specification describes for a line: the substring before the first
  \<^verbatim>\<open>;\<close> and the substring after it.\<close>

definition code_name :: "string \<Rightarrow> string \<times> string" where
  "code_name line =
     (takeWhile (\<lambda>c. c \<noteq> SEP) line, tl (dropWhile (\<lambda>c. c \<noteq> SEP) line))"

text \<open>The line \<^verbatim>\<open>code;name\<close> of a record, without its terminator.\<close>

definition joined :: "string \<times> string \<Rightarrow> string" where
  "joined p = fst p @ SEP # snd p"

text \<open>Well-formed input, as the design notes of the specification have it: exactly one
  \<^verbatim>\<open>;\<close> in every line the parser receives.\<close>

definition well_formed :: "string \<Rightarrow> bool" where
  "well_formed raw \<longleftrightarrow> (\<forall>l \<in> set (content raw). count_list l SEP = 1)"

text \<open>Removing whitespace at one end only.\<close>

definition lstrip :: "string \<Rightarrow> string" where
  "lstrip s = dropWhile isspace s"

definition rstrip :: "string \<Rightarrow> string" where
  "rstrip s = rev (dropWhile isspace (rev s))"

text \<open>Insertion order: the distinct elements of a list in the order of their first
  occurrence.\<close>

fun first_seen :: "'a list \<Rightarrow> 'a list" where
  "first_seen [] = []"
| "first_seen (x # xs) = x # removeAll x (first_seen xs)"

text \<open>The city names of one state in a sequence of records, in the order of the
  sequence.\<close>

definition cities_of :: "(string \<times> string) list \<Rightarrow> string \<Rightarrow> string list" where
  "cities_of ps k = map snd (filter (\<lambda>p. fst p = k) ps)"

text \<open>The GroupTable of a sequence of records: keys in insertion order, every key with
  its city names in input order.\<close>

definition group_of :: "(string \<times> string) list \<Rightarrow> states" where
  "group_of ps = map (\<lambda>k. (k, cities_of ps k)) (first_seen (map fst ps))"

text \<open>The records the writer emits for a dict, in the order of the \<^verbatim>\<open>w.write\<close> calls,
  and the text these calls leave in the file.\<close>

definition written :: "states \<Rightarrow> (string \<times> string) list" where
  "written st = concat (map (\<lambda>(k, v). map (Pair k) (sorted_py length True v)) st)"

definition render :: "(string \<times> string) list \<Rightarrow> string" where
  "render out = concat (map (\<lambda>(k, city). fmt k city) out)"

text \<open>The output file holds exactly the lines \<^verbatim>\<open>code;city\<close> of the records \<open>out\<close>, in
  this order. No field holds a separator or a newline, so the records can be read off
  the text.\<close>

definition emits :: "fs \<Rightarrow> (string \<times> string) list \<Rightarrow> bool" where
  "emits f out \<longleftrightarrow>
     tmp_txt f = Some (render out) \<and>
     (\<forall>(k, city) \<in> set out. LF \<notin> set (k @ city) \<and> SEP \<notin> set (k @ city))"

section \<open>Auxiliary facts\<close>

subsection \<open>Splitting and parsing a line\<close>

lemma split_not_Nil: "split sep s \<noteq> []"
  by (induction s) (auto split: list.splits)

lemma length_split: "length (split sep s) = Suc (count_list s sep)"
  by (induction s) (auto split: list.splits simp: split_not_Nil)

lemma split_no_sep: "sep \<notin> set s \<Longrightarrow> split sep s = [s]"
  by (induction s) auto

lemma split_append_sep: "sep \<notin> set a \<Longrightarrow> split sep (a @ sep # b) = a # split sep b"
  by (induction a) auto

lemma count_list_one:
  "count_list l x = 1 \<longleftrightarrow> (\<exists>a b. l = a @ x # b \<and> x \<notin> set a \<and> x \<notin> set b)"
proof
  assume "count_list l x = 1"
  then have "x \<in> set l" by (metis count_list_0_iff zero_neq_one)
  then obtain a b where ab: "l = a @ x # b" "x \<notin> set a" by (meson split_list_first)
  with \<open>count_list l x = 1\<close> have "count_list b x = 0" by (simp add: count_list_0_iff)
  then have "x \<notin> set b" by (simp add: count_list_0_iff)
  with ab show "\<exists>a b. l = a @ x # b \<and> x \<notin> set a \<and> x \<notin> set b" by blast
next
  assume "\<exists>a b. l = a @ x # b \<and> x \<notin> set a \<and> x \<notin> set b"
  then show "count_list l x = 1" by (auto simp: count_list_0_iff)
qed

lemma parse_line_fields:
  assumes "SEP \<notin> set a" "SEP \<notin> set b"
  shows "parse_line (a @ SEP # b) = Inr (a, b)"
  using assms by (simp add: parse_line_def split_append_sep split_no_sep)

lemma code_name_joined: "SEP \<notin> set a \<Longrightarrow> code_name (a @ SEP # b) = (a, b)"
  by (induction a) (auto simp: code_name_def)

lemma unpack2_cases: "unpack2 fs = (if length fs = 2 then Inr (fs ! 0, fs ! 1) else Inl ValueError)"
  by (cases fs rule: unpack2.cases) auto

lemma parse_line_cases:
  "parse_line l = (if count_list l SEP = 1 then Inr (code_name l) else Inl ValueError)"
proof (cases "count_list l SEP = 1")
  case True
  then obtain a b where "l = a @ SEP # b" "SEP \<notin> set a" "SEP \<notin> set b"
    unfolding count_list_one by blast
  then show ?thesis using True by (simp add: parse_line_fields code_name_joined)
next
  case False
  then show ?thesis by (simp add: parse_line_def unpack2_cases length_split)
qed

subsection \<open>The grouping loop builds the GroupTable\<close>

lemma set_first_seen [simp]: "set (first_seen xs) = set xs"
  by (induction xs) auto

lemma distinct_first_seen [simp]: "distinct (first_seen xs)"
  by (induction xs) (auto simp: distinct_removeAll)

lemma first_seen_snoc:
  "first_seen (xs @ [x]) = (if x \<in> set xs then first_seen xs else first_seen xs @ [x])"
  by (induction xs) auto

lemma cities_of_snoc:
  "cities_of (ps @ [(k, x)]) k' = (if k' = k then cities_of ps k @ [x] else cities_of ps k')"
  by (auto simp: cities_of_def)

lemma setdefault_present:
  "k \<in> set ks \<Longrightarrow> setdefault (map (\<lambda>k. (k, g k)) ks) k d = map (\<lambda>k. (k, g k)) ks"
  by (induction ks) auto

lemma setdefault_absent:
  "k \<notin> set ks \<Longrightarrow> setdefault (map (\<lambda>k. (k, g k)) ks) k d = map (\<lambda>k. (k, g k)) ks @ [(k, d)]"
  by (induction ks) auto

lemma getitem_append_present:
  "k \<in> set ks \<Longrightarrow> distinct ks \<Longrightarrow>
   getitem_append (map (\<lambda>k. (k, g k)) ks) k x = Inr (map (\<lambda>k'. (k', if k' = k then g k @ [x] else g k')) ks)"
  by (induction ks) auto

lemma getitem_append_last:
  "k \<notin> set ks \<Longrightarrow>
   getitem_append (map (\<lambda>k. (k, g k)) ks @ [(k, d)]) k x = Inr (map (\<lambda>k. (k, g k)) ks @ [(k, d @ [x])])"
  by (induction ks) auto

lemma group_step:
  "getitem_append (setdefault (group_of ps) k []) k x = Inr (group_of (ps @ [(k, x)]))"
proof (cases "k \<in> fst ` set ps")
  case True
  then show ?thesis
    unfolding group_of_def
    by (simp add: setdefault_present getitem_append_present first_seen_snoc cities_of_snoc)
next
  case False
  then have "cities_of ps k = []" by (auto simp: cities_of_def filter_empty_conv)
  with False show ?thesis
    unfolding group_of_def
    by (auto simp add: setdefault_absent getitem_append_last first_seen_snoc cities_of_snoc)
qed

lemma group_loop_parsed:
  "map parse_line ls = map Inr ps \<Longrightarrow> group_loop (group_of ps0) ls = Inr (group_of (ps0 @ ps))"
proof (induction ls arbitrary: ps ps0)
  case Nil
  then show ?case by simp
next
  case (Cons l ls)
  then obtain p ps' where ps: "ps = p # ps'" "parse_line l = Inr p" "map parse_line ls = map Inr ps'"
    by (cases ps) auto
  obtain k x where p: "p = (k, x)" by (cases p)
  have "group_loop (group_of (ps0 @ [(k, x)])) ls = Inr (group_of ((ps0 @ [(k, x)]) @ ps'))"
    using Cons.IH [OF ps(3)] .
  then show ?case using ps p by (simp add: group_step)
qed

lemma getitem_after_setdefault:
  "\<exists>st'. getitem_append (setdefault st k d) k x = Inr st'"
  by (induction st k d rule: setdefault.induct) auto

lemma group_loop_fails:
  "\<exists>l \<in> set ls. count_list l SEP \<noteq> 1 \<Longrightarrow> group_loop st ls = Inl ValueError"
proof (induction ls arbitrary: st)
  case Nil
  then show ?case by simp
next
  case (Cons l ls)
  show ?case
  proof (cases "count_list l SEP = 1")
    case False
    then show ?thesis by (simp add: parse_line_cases)
  next
    case True
    with Cons.prems have rest: "\<exists>l \<in> set ls. count_list l SEP \<noteq> 1" by auto
    obtain k x where f: "code_name l = (k, x)" by (cases "code_name l")
    obtain st' where "getitem_append (setdefault st k []) k x = Inr st'"
      using getitem_after_setdefault by blast
    then show ?thesis using True f Cons.IH [OF rest] by (simp add: parse_line_cases)
  qed
qed

lemma group_of_Nil [simp]: "group_of [] = []"
  by (simp add: group_of_def)

lemma map_parse_line_wf:
  "\<forall>l \<in> set ls. count_list l SEP = 1 \<Longrightarrow> map parse_line ls = map Inr (map code_name ls)"
  by (simp add: parse_line_cases)

lemma group_loop_wf:
  "\<forall>l \<in> set ls. count_list l SEP = 1 \<Longrightarrow> group_loop [] ls = Inr (group_of (map code_name ls))"
  using group_loop_parsed [of ls "map code_name ls" "[]"] map_parse_line_wf by simp

subsection \<open>The writer and the sort\<close>

lemma city_loop_eq:
  "tmp_txt f = Some t \<Longrightarrow> city_loop k v f = f\<lparr>tmp_txt := Some (t @ render (map (Pair k) v))\<rparr>"
proof (induction v arbitrary: f t)
  case Nil
  then show ?case by (simp add: render_def)
next
  case (Cons c v)
  have "tmp_txt (w_write (fmt k c) f) = Some (t @ fmt k c)"
    using Cons.prems by (simp add: w_write_def)
  from Cons.IH [OF this] show ?case by (simp add: w_write_def render_def)
qed

lemma render_append: "render (a @ b) = render a @ render b"
  by (simp add: render_def)

lemma items_loop_eq:
  "tmp_txt f = Some t \<Longrightarrow> items_loop st f = f\<lparr>tmp_txt := Some (t @ render (written st))\<rparr>"
proof (induction st arbitrary: f t)
  case Nil
  then show ?case by (simp add: written_def render_def)
next
  case (Cons kv st)
  obtain k v where kv: "kv = (k, v)" by (cases kv)
  let ?b = "map (Pair k) (sorted_py length True v)"
  have step: "city_loop k (sorted_py length True v) f = f\<lparr>tmp_txt := Some (t @ render ?b)\<rparr>"
    using Cons.prems by (rule city_loop_eq)
  have "tmp_txt (f\<lparr>tmp_txt := Some (t @ render ?b)\<rparr>) = Some (t @ render ?b)" by simp
  from Cons.IH [OF this] show ?case
    by (simp add: kv step written_def render_append)
qed

lemma formatter_wf:
  assumes "cities_txt f = Some raw" "\<forall>l \<in> set (content raw). count_list l SEP = 1"
  shows "formatter f = (Inr (), f\<lparr>tmp_txt := Some (render (written (group_of (map code_name (content raw)))))\<rparr>)"
  using assms by (simp add: formatter_def group_loop_wf items_loop_eq [of _ "[]"] open_w_def)

lemma formatter_bad:
  assumes "cities_txt f = Some raw" "\<exists>l \<in> set (content raw). count_list l SEP \<noteq> 1"
  shows "formatter f = (Inl ValueError, f)"
  using assms by (simp add: formatter_def group_loop_fails)

lemma mset_sorted_py [simp]: "mset (sorted_py key r v) = mset v"
  by (simp add: sorted_py_def)

lemma set_sorted_py [simp]: "set (sorted_py key r v) = set v"
  by (simp add: sorted_py_def)

lemma length_sorted_py [simp]: "length (sorted_py key r v) = length v"
  by (simp add: sorted_py_def)

lemma sorted_py_desc: "sorted_wrt (\<lambda>a b. key b \<le> key a) (sorted_py key True v)"
proof -
  have "sorted (map key (sort_key key (rev v)))" by simp
  then have "sorted_wrt (\<lambda>a b. key a \<le> key b) (sort_key key (rev v))"
    by (simp add: sorted_map)
  then show ?thesis by (simp add: sorted_py_def sorted_wrt_rev)
qed

lemma sorted_py_stable:
  "filter (\<lambda>c. key c = n) (sorted_py key True v) = filter (\<lambda>c. key c = n) v"
  by (simp add: sorted_py_def sort_key_stable flip: rev_filter)

lemma sorted_py_id:
  "sorted_wrt (\<lambda>a b. key b \<le> key a) v \<Longrightarrow> sorted_py key True v = v"
proof -
  assume "sorted_wrt (\<lambda>a b. key b \<le> key a) v"
  then have "sorted_wrt (\<lambda>a b. key a \<le> key b) (rev v)" by (simp add: sorted_wrt_rev)
  then have "sorted (map key (rev v))" by (simp add: sorted_map)
  then have "sort_key key (rev v) = rev v" by (rule sort_key_id_if_sorted)
  then show ?thesis by (simp add: sorted_py_def)
qed

lemma sorted_py_idem: "sorted_py key True (sorted_py key True v) = sorted_py key True v"
  by (rule sorted_py_id) (rule sorted_py_desc)

subsection \<open>The records written for a GroupTable\<close>

lemma Pair_cities_of: "map (Pair k) (cities_of ps k) = filter (\<lambda>p. fst p = k) ps"
  by (induction ps) (auto simp: cities_of_def)

lemma mset_concat_filter_keys:
  "distinct ks \<Longrightarrow> fst ` set ps \<subseteq> set ks \<Longrightarrow>
   mset (concat (map (\<lambda>k. filter (\<lambda>p. fst p = k) ps) ks)) = mset ps"
proof (induction ks arbitrary: ps)
  case Nil
  then show ?case by simp
next
  case (Cons k ks)
  let ?rest = "filter (\<lambda>p. fst p \<noteq> k) ps"
  have sub: "fst ` set ?rest \<subseteq> set ks" using Cons.prems by auto
  have same: "map (\<lambda>k'. filter (\<lambda>p. fst p = k') ?rest) ks = map (\<lambda>k'. filter (\<lambda>p. fst p = k') ps) ks"
  proof (rule map_cong [OF refl])
    fix k' assume "k' \<in> set ks"
    then have "k' \<noteq> k" using Cons.prems by auto
    then show "filter (\<lambda>p. fst p = k') ?rest = filter (\<lambda>p. fst p = k') ps"
      by (auto intro: filter_cong)
  qed
  have "mset (concat (map (\<lambda>k'. filter (\<lambda>p. fst p = k') ?rest) ks)) = mset ?rest"
    using Cons.IH [OF _ sub] Cons.prems by simp
  then have "mset (concat (map (\<lambda>k'. filter (\<lambda>p. fst p = k') ps) ks)) = mset ?rest"
    by (simp only: same)
  then show ?case by (simp add: mset_filter flip: multiset_partition)
qed

lemma mset_written_group_of: "mset (written (group_of ps)) = mset ps"
proof -
  let ?ks = "first_seen (map fst ps)"
  have pw: "mset (map (Pair k) (sorted_py length True (cities_of ps k))) =
            mset (filter (\<lambda>p. fst p = k) ps)" for k
    by (metis Pair_cities_of mset_map mset_sorted_py)
  have "mset (written (group_of ps)) =
        (\<Sum>k\<leftarrow>?ks. mset (map (Pair k) (sorted_py length True (cities_of ps k))))"
    by (simp add: written_def group_of_def mset_concat comp_def)
  also have "\<dots> = (\<Sum>k\<leftarrow>?ks. mset (filter (\<lambda>p. fst p = k) ps))"
    by (simp only: pw)
  also have "\<dots> = mset (concat (map (\<lambda>k. filter (\<lambda>p. fst p = k) ps) ?ks))"
    by (simp add: mset_concat comp_def)
  also have "\<dots> = mset ps"
    by (rule mset_concat_filter_keys) auto
  finally show ?thesis .
qed

lemma cities_of_written:
  "distinct (map fst st) \<Longrightarrow>
   cities_of (written st) k = (case map_of st k of None \<Rightarrow> [] | Some v \<Rightarrow> sorted_py length True v)"
proof (induction st)
  case Nil
  then show ?case by (simp add: written_def cities_of_def)
next
  case (Cons kv st)
  obtain k' v where kv: "kv = (k', v)" by (cases kv)
  have split: "cities_of (written ((k', v) # st)) q =
     cities_of (map (Pair k') (sorted_py length True v)) q @ cities_of (written st) q" for q
    by (simp add: written_def cities_of_def)
  have blk: "cities_of (map (Pair k') w) q = (if q = k' then w else [])" for w q
    by (induction w) (auto simp: cities_of_def)
  show ?case
  proof (cases "k = k'")
    case True
    then have "map_of st k = None" using Cons.prems kv by (simp add: map_of_eq_None_iff)
    then show ?thesis using True Cons by (simp add: split blk kv)
  next
    case False
    then show ?thesis using Cons by (simp add: split blk kv)
  qed
qed

lemma distinct_keys_group_of [simp]: "distinct (map fst (group_of ps))"
  by (simp add: group_of_def comp_def)

lemma map_of_group_of:
  "map_of (group_of ps) k = (if k \<in> fst ` set ps then Some (cities_of ps k) else None)"
  by (auto simp: group_of_def map_of_map_restrict restrict_map_def)

lemma cities_of_absent: "k \<notin> fst ` set ps \<Longrightarrow> cities_of ps k = []"
  by (auto simp: cities_of_def filter_empty_conv)

lemma block_sorted:
  "cities_of (written (group_of ps)) k = sorted_py length True (cities_of ps k)"
  by (simp add: cities_of_written map_of_group_of cities_of_absent sorted_py_def)

lemma group_values_nonempty: "(k, v) \<in> set (group_of ps) \<Longrightarrow> v \<noteq> []"
  by (fastforce simp: group_of_def cities_of_def filter_empty_conv)

lemma first_seen_replicate_Suc:
  "first_seen (replicate (Suc n) k @ ys) = k # removeAll k (first_seen ys)"
  by (induction n) auto

lemma first_seen_replicate_append:
  "0 < n \<Longrightarrow> first_seen (replicate n k @ ys) = k # removeAll k (first_seen ys)"
  using first_seen_replicate_Suc [of _ k ys] by (cases n) auto

lemma first_seen_written:
  "distinct (map fst st) \<Longrightarrow> \<forall>(k, v) \<in> set st. v \<noteq> [] \<Longrightarrow>
   first_seen (map fst (written st)) = map fst st"
proof (induction st)
  case Nil
  then show ?case by (simp add: written_def)
next
  case (Cons kv st)
  obtain k v where kv: "kv = (k, v)" by (cases kv)
  have "map fst (written (kv # st)) = replicate (length v) k @ map fst (written st)"
    by (simp add: written_def kv comp_def map_replicate_const)
  moreover have "0 < length v" using Cons.prems kv by auto
  moreover have "first_seen (map fst (written st)) = map fst st" using Cons by simp
  moreover have "k \<notin> set (map fst st)" using Cons.prems kv by simp
  ultimately show ?case by (simp add: first_seen_replicate_append kv)
qed

lemma group_of_written:
  assumes "distinct (map fst st)" "\<forall>(k, v) \<in> set st. v \<noteq> []"
  shows "group_of (written st) = map (\<lambda>(k, v). (k, sorted_py length True v)) st"
proof -
  have "map (\<lambda>k. (k, cities_of (written st) k)) (map fst st) =
        map (\<lambda>(k, v). (k, sorted_py length True v)) st"
    using assms(1) by (auto simp: cities_of_written)
  then show ?thesis using assms by (simp add: group_of_def first_seen_written)
qed

lemma written_idem:
  "written (map (\<lambda>(k, v). (k, sorted_py length True v)) st) = written st"
  by (induction st) (auto simp: written_def sorted_py_idem)

lemma written_group_of_written:
  "written (group_of (written (group_of ps))) = written (group_of ps)"
proof -
  have "\<forall>(k, v) \<in> set (group_of ps). v \<noteq> []" using group_values_nonempty by auto
  then show ?thesis by (simp add: group_of_written written_idem)
qed

subsection \<open>Stripping\<close>

lemma strip_lstrip_rstrip: "strip s = rstrip (lstrip s)"
  by (simp add: strip_def lstrip_def rstrip_def)

lemma rstrip_decomp: "\<exists>post. s = rstrip s @ post \<and> (\<forall>c \<in> set post. isspace c)"
proof -
  have "rev s = takeWhile isspace (rev s) @ dropWhile isspace (rev s)" by simp
  then have "s = rev (dropWhile isspace (rev s)) @ rev (takeWhile isspace (rev s))"
    by (metis rev_append rev_rev_ident)
  moreover have "\<forall>c \<in> set (rev (takeWhile isspace (rev s))). isspace c"
    by (auto dest: set_takeWhileD)
  ultimately show ?thesis unfolding rstrip_def by blast
qed

lemma lstrip_decomp: "\<exists>pre. s = pre @ lstrip s \<and> (\<forall>c \<in> set pre. isspace c)"
proof -
  have "s = takeWhile isspace s @ dropWhile isspace s" by simp
  moreover have "\<forall>c \<in> set (takeWhile isspace s). isspace c" by (auto dest: set_takeWhileD)
  ultimately show ?thesis unfolding lstrip_def by blast
qed

lemma strip_decomp:
  "\<exists>pre post. s = pre @ strip s @ post \<and> (\<forall>c \<in> set pre. isspace c) \<and> (\<forall>c \<in> set post. isspace c)"
proof -
  obtain pre where pre: "s = pre @ lstrip s" "\<forall>c \<in> set pre. isspace c"
    using lstrip_decomp by blast
  obtain post where post: "lstrip s = rstrip (lstrip s) @ post" "\<forall>c \<in> set post. isspace c"
    using rstrip_decomp by blast
  have "s = pre @ strip s @ post" using pre(1) post(1) by (simp add: strip_lstrip_rstrip)
  with pre(2) post(2) show ?thesis by blast
qed

lemma set_strip: "set (strip s) \<subseteq> set s"
  using strip_decomp [of s] by (metis Un_iff set_append subsetI)

lemma lstrip_hd: "lstrip s \<noteq> [] \<Longrightarrow> \<not> isspace (hd (lstrip s))"
  unfolding lstrip_def by (rule hd_dropWhile)

lemma rstrip_last: "rstrip s \<noteq> [] \<Longrightarrow> \<not> isspace (last (rstrip s))"
  unfolding rstrip_def by (simp add: last_rev hd_dropWhile)

lemma rstrip_id: "s = [] \<or> \<not> isspace (last s) \<Longrightarrow> rstrip s = s"
  by (cases s rule: rev_cases) (auto simp: rstrip_def)

lemma lstrip_id: "s = [] \<or> \<not> isspace (hd s) \<Longrightarrow> lstrip s = s"
  by (cases s) (auto simp: lstrip_def)

lemma rstrip_hd: "s \<noteq> [] \<Longrightarrow> \<not> isspace (hd s) \<Longrightarrow> rstrip s \<noteq> [] \<and> hd (rstrip s) = hd s"
proof (induction s rule: rev_induct)
  case Nil
  then show ?case by simp
next
  case (snoc x xs)
  show ?case
  proof (cases "isspace x")
    case False
    then show ?thesis by (simp add: rstrip_def)
  next
    case True
    then have r: "rstrip (xs @ [x]) = rstrip xs" by (simp add: rstrip_def)
    from True snoc.prems have "xs \<noteq> []" by auto
    moreover from this snoc.prems have "\<not> isspace (hd xs)" by simp
    ultimately show ?thesis using snoc.IH r by simp
  qed
qed

lemma strip_ends:
  assumes "strip s \<noteq> []"
  shows "\<not> isspace (hd (strip s)) \<and> \<not> isspace (last (strip s))"
proof -
  from assms have ne: "lstrip s \<noteq> []" by (auto simp: strip_lstrip_rstrip rstrip_def)
  then have "\<not> isspace (hd (lstrip s))" by (rule lstrip_hd)
  with ne have "hd (rstrip (lstrip s)) = hd (lstrip s)" using rstrip_hd by blast
  then have "\<not> isspace (hd (strip s))"
    using \<open>\<not> isspace (hd (lstrip s))\<close> by (simp add: strip_lstrip_rstrip)
  moreover have "\<not> isspace (last (strip s))"
    using assms rstrip_last by (simp add: strip_lstrip_rstrip)
  ultimately show ?thesis by simp
qed

lemma strip_id: "s = [] \<or> (\<not> isspace (hd s) \<and> \<not> isspace (last s)) \<Longrightarrow> strip s = s"
  by (auto simp: strip_lstrip_rstrip lstrip_id rstrip_id)

lemma strip_idem: "strip (strip s) = strip s"
  using strip_ends [of s] by (cases "strip s = []") (auto intro: strip_id)

lemma isspace_LF [simp]: "isspace LF"
  by (simp add: isspace_def LF_def)

lemma strip_snoc_space: "isspace x \<Longrightarrow> strip (s @ [x]) = strip s"
proof (cases "\<forall>c \<in> set s. isspace c")
  case True
  assume "isspace x"
  have a: "dropWhile isspace s = []"
    using True by (subst dropWhile_eq_Nil_conv) blast
  have b: "dropWhile isspace (s @ [x]) = []"
    using True \<open>isspace x\<close> by (subst dropWhile_eq_Nil_conv) auto
  show ?thesis by (simp only: strip_def a b)
next
  case False
  assume "isspace x"
  from False have "dropWhile isspace (s @ [x]) = dropWhile isspace s @ [x]"
    by (auto simp: dropWhile_append)
  with \<open>isspace x\<close> show ?thesis by (simp add: strip_def)
qed

subsection \<open>Reading lines, and reading the output back\<close>

lemma concat_readlines: "concat (readlines t) = t"
  by (induction t) (auto split: list.splits)

lemma readlines_line:
  "r \<in> set (readlines t) \<Longrightarrow> \<exists>b. LF \<notin> set b \<and> (r = b \<or> r = b @ [LF])"
proof (induction t arbitrary: r)
  case Nil
  then show ?case by simp
next
  case (Cons c cs)
  show ?case
  proof (cases "c = LF")
    case True
    with Cons.prems have "r = [LF] \<or> r \<in> set (readlines cs)" by auto
    then show ?thesis
    proof
      assume "r = [LF]"
      then have "LF \<notin> set [] \<and> (r = [] \<or> r = [] @ [LF])" by simp
      then show ?thesis by blast
    next
      assume "r \<in> set (readlines cs)"
      then show ?thesis by (rule Cons.IH)
    qed
  next
    case False
    show ?thesis
    proof (cases "readlines cs")
      case Nil
      with False Cons.prems have "r = [c]" by simp
      with False have "LF \<notin> set [c] \<and> (r = [c] \<or> r = [c] @ [LF])" by simp
      then show ?thesis by blast
    next
      case (Cons l ls)
      with False Cons.prems have "r = c # l \<or> r \<in> set ls" by auto
      then show ?thesis
      proof
        assume r: "r = c # l"
        have "l \<in> set (readlines cs)" using Cons by simp
        then obtain b where "LF \<notin> set b" "l = b \<or> l = b @ [LF]" using Cons.IH by blast
        with r False have "LF \<notin> set (c # b) \<and> (r = c # b \<or> r = (c # b) @ [LF])" by auto
        then show ?thesis by blast
      next
        assume "r \<in> set ls"
        then have "r \<in> set (readlines cs)" using Cons by simp
        then show ?thesis by (rule Cons.IH)
      qed
    qed
  qed
qed

lemma readlines_terminated:
  "LF \<notin> set l \<Longrightarrow> readlines (l @ LF # t) = (l @ [LF]) # readlines t"
  by (induction l) auto

lemma readlines_concat_lines:
  "\<forall>l \<in> set ls. LF \<notin> set l \<Longrightarrow>
   readlines (concat (map (\<lambda>l. l @ [LF]) ls)) = map (\<lambda>l. l @ [LF]) ls"
  by (induction ls) (auto simp: readlines_terminated)

lemma universal_newlines_no_CR: "CR \<notin> set (universal_newlines t)"
  by (induction t rule: universal_newlines.induct) (auto simp: CR_def LF_def)

lemma universal_newlines_id: "CR \<notin> set t \<Longrightarrow> universal_newlines t = t"
  by (induction t rule: universal_newlines.induct) auto

lemma content_line_props:
  assumes "l \<in> set (content raw)"
  shows "strip l = l" "LF \<notin> set l" "CR \<notin> set l"
proof -
  from assms obtain r where r: "r \<in> set (readlines (universal_newlines raw))" "l = strip r"
    by (auto simp: content_def)
  show "strip l = l" using r(2) by (simp add: strip_idem)
  from readlines_line [OF r(1)] obtain b where b: "LF \<notin> set b" "r = b \<or> r = b @ [LF]"
    by blast
  then have "strip r = strip b" by (auto simp: strip_snoc_space)
  with b(1) set_strip [of b] show "LF \<notin> set l" using r(2) by auto
  have "set r \<subseteq> set (concat (readlines (universal_newlines raw)))" using r(1) by auto
  then have "CR \<notin> set r" using universal_newlines_no_CR by (auto simp: concat_readlines)
  with set_strip [of r] show "CR \<notin> set l" using r(2) by auto
qed

lemma render_lines: "render out = concat (map (\<lambda>l. l @ [LF]) (map joined out))"
  by (induction out) (auto simp: render_def fmt_def joined_def)

lemma wf_line_joined:
  "count_list l SEP = 1 \<Longrightarrow> joined (code_name l) = l"
  unfolding count_list_one by (auto simp: code_name_joined joined_def)

text \<open>Reading back what a well-formed run wrote.\<close>

lemma content_render:
  assumes "\<forall>p \<in> set out. \<exists>l. joined p = l \<and> strip l = l \<and> LF \<notin> set l \<and> CR \<notin> set l"
  shows "content (render out) = map joined out"
proof -
  let ?ls = "map joined out"
  have noLF: "\<forall>l \<in> set ?ls. LF \<notin> set l" using assms by auto
  have "CR \<notin> set (render out)" using assms by (auto simp: render_lines CR_def LF_def)
  then have "universal_newlines (render out) = render out" by (rule universal_newlines_id)
  then have "content (render out) = map strip (map (\<lambda>l. l @ [LF]) ?ls)"
    using readlines_concat_lines [OF noLF] by (simp add: content_def render_lines)
  also have "\<dots> = map (\<lambda>l. strip l) ?ls" by (simp add: strip_snoc_space comp_def)
  also have "\<dots> = ?ls" using assms by (auto intro: map_idI)
  finally show ?thesis .
qed

lemma second_run_content:
  assumes wf: "\<forall>l \<in> set (content raw). count_list l SEP = 1"
  defines "out \<equiv> written (group_of (map code_name (content raw)))"
  shows "content (render out) = map joined out"
    and "\<forall>l \<in> set (content (render out)). count_list l SEP = 1"
    and "map code_name (content (render out)) = out"
proof -
  have "set out = set (map code_name (content raw))"
    unfolding out_def using mset_written_group_of by (metis set_mset_mset)
  then have src: "\<forall>p \<in> set out. \<exists>l \<in> set (content raw). p = code_name l" by auto
  have good: "\<forall>p \<in> set out. joined p \<in> set (content raw)"
    using src wf by (auto simp: wf_line_joined)
  then have "\<forall>p \<in> set out. \<exists>l. joined p = l \<and> strip l = l \<and> LF \<notin> set l \<and> CR \<notin> set l"
    using content_line_props by blast
  then show c: "content (render out) = map joined out" by (rule content_render)
  show "\<forall>l \<in> set (content (render out)). count_list l SEP = 1"
    using good wf by (auto simp: c)
  have "map (\<lambda>p. code_name (joined p)) out = out"
  proof (rule map_idI)
    fix p assume "p \<in> set out"
    then obtain l where "l \<in> set (content raw)" "p = code_name l" using src by blast
    then show "code_name (joined p) = p" using wf by (simp add: wf_line_joined)
  qed
  then show "map code_name (content (render out)) = out" by (simp add: c comp_def)
qed

subsection \<open>A run on well-formed input\<close>

lemma wf_line_parts:
  assumes "count_list l SEP = 1"
  shows "l = joined (code_name l)" "SEP \<notin> set (fst (code_name l))" "SEP \<notin> set (snd (code_name l))"
proof -
  from assms obtain a b where "l = a @ SEP # b" "SEP \<notin> set a" "SEP \<notin> set b"
    unfolding count_list_one by blast
  then show "l = joined (code_name l)" "SEP \<notin> set (fst (code_name l))"
    "SEP \<notin> set (snd (code_name l))"
    by (simp_all add: code_name_joined joined_def)
qed

lemma run_well_formed:
  assumes "cities_txt f = Some raw" "well_formed raw"
  defines "ps \<equiv> map code_name (content raw)"
  defines "out \<equiv> written (group_of ps)"
  shows "map parse_line (content raw) = map Inr ps"
    and "group_loop [] (content raw) = Inr (group_of ps)"
    and "formatter f = (Inr (), f\<lparr>tmp_txt := Some (render out)\<rparr>)"
    and "emits (f\<lparr>tmp_txt := Some (render out)\<rparr>) out"
proof -
  have wf: "\<forall>l \<in> set (content raw). count_list l SEP = 1"
    using assms(2) by (simp add: well_formed_def)
  show "map parse_line (content raw) = map Inr ps"
    unfolding ps_def using wf by (rule map_parse_line_wf)
  show "group_loop [] (content raw) = Inr (group_of ps)"
    unfolding ps_def using wf by (rule group_loop_wf)
  show "formatter f = (Inr (), f\<lparr>tmp_txt := Some (render out)\<rparr>)"
    unfolding out_def ps_def using assms(1) wf by (rule formatter_wf)
  have "set out = set ps"
    unfolding out_def using mset_written_group_of by (metis set_mset_mset)
  have "LF \<notin> set (k @ c) \<and> SEP \<notin> set (k @ c)" if "(k, c) \<in> set out" for k c
  proof -
    from that \<open>set out = set ps\<close> obtain l where l: "l \<in> set (content raw)" "code_name l = (k, c)"
      by (auto simp: ps_def)
    then have one: "count_list l SEP = 1" using wf by simp
    from wf_line_parts [OF one] l(2) have "l = k @ SEP # c" "SEP \<notin> set k" "SEP \<notin> set c"
      by (simp_all add: joined_def)
    moreover have "LF \<notin> set l" using l(1) by (rule content_line_props)
    ultimately show ?thesis by auto
  qed
  then show "emits (f\<lparr>tmp_txt := Some (render out)\<rparr>) out"
    by (auto simp: emits_def)
qed

lemma formatter_succeeds_iff:
  assumes "cities_txt f = Some raw"
  shows "fst (formatter f) = Inr () \<longleftrightarrow> well_formed raw"
proof (cases "well_formed raw")
  case True
  then show ?thesis using run_well_formed(3) [OF assms True] by simp
next
  case False
  then have "\<exists>l \<in> set (content raw). count_list l SEP \<noteq> 1" by (simp add: well_formed_def)
  with assms have "formatter f = (Inl ValueError, f)" by (rule formatter_bad)
  with False show ?thesis by simp
qed

lemma emits_unique:
  assumes "emits f out" "emits f out'"
  shows "out = out'"
proof -
  have lines: "readlines (render rs) = map (\<lambda>l. l @ [LF]) (map joined rs)"
    and roundtrip: "map (\<lambda>p. code_name (joined p)) rs = rs" if "emits f rs" for rs
  proof -
    from that have ok: "\<forall>(k, c) \<in> set rs. LF \<notin> set (k @ c) \<and> SEP \<notin> set (k @ c)"
      by (simp add: emits_def)
    then have "\<forall>l \<in> set (map joined rs). LF \<notin> set l"
      by (auto simp: joined_def LF_def SEP_def)
    then show "readlines (render rs) = map (\<lambda>l. l @ [LF]) (map joined rs)"
      unfolding render_lines by (rule readlines_concat_lines)
    show "map (\<lambda>p. code_name (joined p)) rs = rs"
      using ok by (intro map_idI) (auto simp: joined_def code_name_joined)
  qed
  from assms have "render out = render out'" by (simp add: emits_def)
  then have "map (\<lambda>l. l @ [LF]) (map joined out) = map (\<lambda>l. l @ [LF]) (map joined out')"
    using lines [OF assms(1)] lines [OF assms(2)] by simp
  moreover have "inj (\<lambda>l::string. l @ [LF])" by (simp add: inj_on_def)
  ultimately have "map joined out = map joined out'"
    by (simp only: inj_map_eq_map)
  then have "map code_name (map joined out) = map code_name (map joined out')" by simp
  then show ?thesis using roundtrip [OF assms(1)] roundtrip [OF assms(2)] by (simp add: comp_def)
qed

lemma sorted_py_eq_Nil: "sorted_py key r v = [] \<longleftrightarrow> v = []"
  by (metis length_sorted_py length_0_conv)

lemma written_blocks:
  "written st = concat (map (\<lambda>(k, v). map (Pair k) v) (map (\<lambda>(k, v). (k, sorted_py length True v)) st))"
  by (induction st) (auto simp: written_def)

subsection \<open>Stripping at one end\<close>

lemma lstrip_spaces: "\<forall>c \<in> set pre. isspace c \<Longrightarrow> lstrip (pre @ s) = lstrip s"
  by (induction pre) (auto simp: lstrip_def)

lemma rstrip_spaces: "\<forall>c \<in> set post. isspace c \<Longrightarrow> rstrip (s @ post) = rstrip s"
  by (induction post rule: rev_induct) (auto simp: rstrip_def simp flip: append_assoc)

lemma rstrip_eq_Nil: "rstrip s = [] \<longleftrightarrow> (\<forall>c \<in> set s. isspace c)"
proof -
  have "dropWhile isspace (rev s) = [] \<longleftrightarrow> (\<forall>c \<in> set (rev s). isspace c)"
    by (rule dropWhile_eq_Nil_conv)
  then show ?thesis by (simp add: rstrip_def)
qed

lemma strip_rstrip_first: "strip s = lstrip (rstrip s)"
proof -
  obtain pre post where d: "s = pre @ strip s @ post"
    "\<forall>c \<in> set pre. isspace c" "\<forall>c \<in> set post. isspace c"
    using strip_decomp by blast
  show ?thesis
  proof (cases "strip s = []")
    case True
    with d have "\<forall>c \<in> set s. isspace c" by (metis Un_iff append_Nil set_append)
    then have "rstrip s = []" by (simp add: rstrip_eq_Nil)
    with True show ?thesis by (simp add: lstrip_def)
  next
    case False
    then have ends: "\<not> isspace (hd (strip s))" "\<not> isspace (last (strip s))"
      using strip_ends by blast+
    have "rstrip s = rstrip (pre @ strip s)"
      using rstrip_spaces [OF d(3), of "pre @ strip s"] d(1) by simp
    also have "\<dots> = pre @ strip s"
      using False ends(2) by (intro rstrip_id) simp
    finally have "lstrip (rstrip s) = lstrip (strip s)"
      using lstrip_spaces [OF d(2)] by simp
    also have "\<dots> = strip s" using ends(1) by (intro lstrip_id) simp
    finally show ?thesis by simp
  qed
qed

lemma lstrip_noop_iff: "lstrip s = s \<longleftrightarrow> s = [] \<or> \<not> isspace (hd s)"
proof (cases s)
  case Nil
  then show ?thesis by (simp add: lstrip_def)
next
  case (Cons a t)
  have "length (dropWhile isspace t) \<le> length t" by (rule length_dropWhile_le)
  then have "dropWhile isspace t \<noteq> a # t" by auto
  with Cons show ?thesis by (simp add: lstrip_def)
qed

lemma strip_eq_rstrip_iff:
  "strip s = rstrip s \<longleftrightarrow> (\<forall>c \<in> set s. isspace c) \<or> \<not> isspace (hd s)"
proof (cases "rstrip s = []")
  case True
  then have "\<forall>c \<in> set s. isspace c" by (simp add: rstrip_eq_Nil)
  with True show ?thesis by (simp add: strip_rstrip_first lstrip_def)
next
  case False
  obtain post where "s = rstrip s @ post" using rstrip_decomp by blast
  with False have "hd s = hd (rstrip s)" by (metis hd_append2)
  with False show ?thesis by (simp add: strip_rstrip_first lstrip_noop_iff rstrip_eq_Nil)
qed

lemma cities_of_member: "(k, c) \<in> set ps \<Longrightarrow> c \<in> set (cities_of ps k)"
  by (force simp: cities_of_def)

section \<open>The claims\<close>

subsection \<open>C1: parsing a line\<close>

text \<open>
  C1, as amended. Parsing is total: every line yields a record or \<^verbatim>\<open>ValueError\<close>. A line
  with exactly one \<^verbatim>\<open>;\<close> yields the record (substring before the \<^verbatim>\<open>;\<close>, substring after
  it), and the parse error is signalled if and only if the number of \<^verbatim>\<open>;\<close> in the line is
  not one: no separator, or more than one.
\<close>
theorem parse_line_exactly_one_separator:
  "(count_list line SEP = 1 \<longrightarrow> parse_line line = Inr (code_name line)) \<and>
   (parse_line line = Inl ValueError \<longleftrightarrow> count_list line SEP \<noteq> 1)"
proof (cases "count_list line SEP = 1")
  case True
  then obtain a b where parts: "line = a @ SEP # b" "SEP \<notin> set a" "SEP \<notin> set b"
    unfolding count_list_one by blast
  then have "split SEP line = [a, b]" by (simp add: split_append_sep split_no_sep)
  then have "parse_line line = Inr (a, b)" by (simp add: parse_line_def)
  moreover have "code_name line = (a, b)" using parts(1,2) by (simp add: code_name_joined)
  ultimately show ?thesis using True by simp
next
  case False
  then have "length (split SEP line) \<noteq> 2" by (simp add: length_split)
  then have "parse_line line = Inl ValueError" by (simp add: parse_line_def unpack2_cases)
  with False show ?thesis by simp
qed

text \<open>A line of the example of the specification.\<close>
theorem parse_line_exactly_one_separator_witness:
  "count_list ''AB;city_name_z'' SEP = 1 \<and>
   parse_line ''AB;city_name_z'' = Inr (''AB'', ''city_name_z'')"
proof -
  have one: "count_list ''AB;city_name_z'' SEP = 1" by code_simp
  have rec: "code_name ''AB;city_name_z'' = (''AB'', ''city_name_z'')" by code_simp
  from parse_line_exactly_one_separator [of "''AB;city_name_z''"] one rec
  show ?thesis by simp
qed

text \<open>C1 as stated fails: a line whose city name holds a further \<^verbatim>\<open>;\<close> contains a
  separator, and the record of its first \<^verbatim>\<open>;\<close> would be \<^verbatim>\<open>("AB", "name;x")\<close>, yet
  \<^verbatim>\<open>line.split(";")\<close> returns three fields and the unpacking raises.\<close>
theorem parse_line_further_separator_counterexample:
  "SEP \<in> set ''AB;name;x'' \<and> code_name ''AB;name;x'' = (''AB'', ''name;x'') \<and>
   parse_line ''AB;name;x'' \<noteq> Inr (''AB'', ''name;x'') \<and>
   parse_line ''AB;name;x'' = Inl ValueError"
  by code_simp

subsection \<open>C2: no record dropped or duplicated\<close>

text \<open>
  C2, as amended. For every input in which every line holds exactly one \<^verbatim>\<open>;\<close>, the run
  succeeds and the multiset of (state code, city name) pairs written to the output file
  equals the multiset of the pairs parsed from the input.
\<close>
theorem records_preserved:
  assumes "cities_txt f = Some raw" and "well_formed raw"
  shows "\<exists>ps out f'. map parse_line (content raw) = map Inr ps \<and>
           formatter f = (Inr (), f') \<and> emits f' out \<and> mset out = mset ps"
proof -
  let ?ps = "map code_name (content raw)"
  let ?out = "written (group_of ?ps)"
  note run = run_well_formed [OF assms]
  have "mset ?out = mset ?ps" by (rule mset_written_group_of)
  with run(1,3,4) show ?thesis by blast
qed

theorem records_preserved_witness:
  "well_formed ''CA;foo\<newline>AB;z\<newline>CA;foobar\<newline>AB;yy\<newline>'' \<and>
   tmp_txt (snd (formatter \<lparr>cities_txt = Some ''CA;foo\<newline>AB;z\<newline>CA;foobar\<newline>AB;yy\<newline>'', tmp_txt = None\<rparr>)) =
     Some ''CA;foobar\<newline>CA;foo\<newline>AB;yy\<newline>AB;z\<newline>'' \<and>
   (\<exists>ps out f'.
      map parse_line (content ''CA;foo\<newline>AB;z\<newline>CA;foobar\<newline>AB;yy\<newline>'') = map Inr ps \<and>
      formatter \<lparr>cities_txt = Some ''CA;foo\<newline>AB;z\<newline>CA;foobar\<newline>AB;yy\<newline>'', tmp_txt = None\<rparr>
        = (Inr (), f') \<and>
      emits f' out \<and> mset out = mset ps)"
proof -
  have wf: "well_formed ''CA;foo\<newline>AB;z\<newline>CA;foobar\<newline>AB;yy\<newline>''" by code_simp
  have res: "tmp_txt (snd (formatter \<lparr>cities_txt = Some ''CA;foo\<newline>AB;z\<newline>CA;foobar\<newline>AB;yy\<newline>'', tmp_txt = None\<rparr>)) =
     Some ''CA;foobar\<newline>CA;foo\<newline>AB;yy\<newline>AB;z\<newline>''" by code_simp
  have "cities_txt \<lparr>cities_txt = Some ''CA;foo\<newline>AB;z\<newline>CA;foobar\<newline>AB;yy\<newline>'', tmp_txt = None\<rparr>
        = Some ''CA;foo\<newline>AB;z\<newline>CA;foobar\<newline>AB;yy\<newline>''" by simp
  from records_preserved [OF this wf] wf res show ?thesis by blast
qed

text \<open>C2 as stated fails: every line of this input contains a separator and the first
  line parses to a record, but the second line raises, the run aborts and no record is
  written.\<close>
theorem records_dropped_counterexample:
  "SEP \<in> set ''CA;foo'' \<and> SEP \<in> set ''AB;name;x'' \<and>
   content ''CA;foo\<newline>AB;name;x\<newline>'' = [''CA;foo'', ''AB;name;x''] \<and>
   parse_line ''CA;foo'' = Inr (''CA'', ''foo'') \<and>
   tmp_txt (snd (formatter \<lparr>cities_txt = Some ''CA;foo\<newline>AB;name;x\<newline>'', tmp_txt = None\<rparr>))
     = None \<and>
   formatter \<lparr>cities_txt = Some ''CA;foo\<newline>AB;name;x\<newline>'', tmp_txt = None\<rparr>
     = (Inl ValueError, \<lparr>cities_txt = Some ''CA;foo\<newline>AB;name;x\<newline>'', tmp_txt = None\<rparr>)"
  by code_simp

subsection \<open>C3: every block is ordered from the longest name to the shortest\<close>

text \<open>
  C3. For every well-formed input the run succeeds, and for every state code the city
  names emitted for that state are in non-increasing order of length.
\<close>
theorem blocks_longest_first:
  assumes "cities_txt f = Some raw" and "well_formed raw"
  shows "\<exists>out f'. formatter f = (Inr (), f') \<and> emits f' out \<and>
           (\<forall>k. sorted_wrt (\<lambda>a b. length b \<le> length a) (cities_of out k))"
proof -
  let ?ps = "map code_name (content raw)"
  let ?out = "written (group_of ?ps)"
  note run = run_well_formed [OF assms]
  have "sorted_wrt (\<lambda>a b. length b \<le> length a) (cities_of ?out k)" for k
    by (simp only: block_sorted sorted_py_desc)
  with run(3,4) show ?thesis by blast
qed

theorem blocks_longest_first_witness:
  "well_formed ''AB;z\<newline>CA;foo\<newline>AB;xxx\<newline>AB;yy\<newline>'' \<and>
   tmp_txt (snd (formatter \<lparr>cities_txt = Some ''AB;z\<newline>CA;foo\<newline>AB;xxx\<newline>AB;yy\<newline>'', tmp_txt = None\<rparr>)) =
     Some ''AB;xxx\<newline>AB;yy\<newline>AB;z\<newline>CA;foo\<newline>'' \<and>
   (\<exists>out f'.
      formatter \<lparr>cities_txt = Some ''AB;z\<newline>CA;foo\<newline>AB;xxx\<newline>AB;yy\<newline>'', tmp_txt = None\<rparr>
        = (Inr (), f') \<and>
      emits f' out \<and>
      (\<forall>k. sorted_wrt (\<lambda>a b. length b \<le> length a) (cities_of out k)))"
proof -
  have wf: "well_formed ''AB;z\<newline>CA;foo\<newline>AB;xxx\<newline>AB;yy\<newline>''" by code_simp
  have res: "tmp_txt (snd (formatter \<lparr>cities_txt = Some ''AB;z\<newline>CA;foo\<newline>AB;xxx\<newline>AB;yy\<newline>'', tmp_txt = None\<rparr>)) =
     Some ''AB;xxx\<newline>AB;yy\<newline>AB;z\<newline>CA;foo\<newline>''" by code_simp
  have "cities_txt \<lparr>cities_txt = Some ''AB;z\<newline>CA;foo\<newline>AB;xxx\<newline>AB;yy\<newline>'', tmp_txt = None\<rparr>
        = Some ''AB;z\<newline>CA;foo\<newline>AB;xxx\<newline>AB;yy\<newline>''" by simp
  from blocks_longest_first [OF this wf] wf res show ?thesis by blast
qed

subsection \<open>C4: the sort is stable\<close>

text \<open>
  C4. For every well-formed input, every state and every length, the city names of that
  state with that length come in the output in the order they have in the input: two
  names of equal length keep their relative order.
\<close>
theorem equal_lengths_keep_input_order:
  assumes "cities_txt f = Some raw" and "well_formed raw"
  shows "\<exists>ps out f'. map parse_line (content raw) = map Inr ps \<and>
           formatter f = (Inr (), f') \<and> emits f' out \<and>
           (\<forall>k n. filter (\<lambda>c. length c = n) (cities_of out k) =
                  filter (\<lambda>c. length c = n) (cities_of ps k))"
proof -
  let ?ps = "map code_name (content raw)"
  let ?out = "written (group_of ?ps)"
  note run = run_well_formed [OF assms]
  have "filter (\<lambda>c. length c = n) (cities_of ?out k) =
        filter (\<lambda>c. length c = n) (cities_of ?ps k)" for k n
    by (simp only: block_sorted sorted_py_stable)
  with run(1,3,4) show ?thesis by blast
qed

theorem equal_lengths_keep_input_order_witness:
  "well_formed ''AB;bb\<newline>AB;z\<newline>AB;aa\<newline>AB;ccc\<newline>AB;bb\<newline>'' \<and>
   tmp_txt (snd (formatter \<lparr>cities_txt = Some ''AB;bb\<newline>AB;z\<newline>AB;aa\<newline>AB;ccc\<newline>AB;bb\<newline>'', tmp_txt = None\<rparr>)) =
     Some ''AB;ccc\<newline>AB;bb\<newline>AB;aa\<newline>AB;bb\<newline>AB;z\<newline>'' \<and>
   (\<exists>ps out f'.
      map parse_line (content ''AB;bb\<newline>AB;z\<newline>AB;aa\<newline>AB;ccc\<newline>AB;bb\<newline>'') = map Inr ps \<and>
      formatter \<lparr>cities_txt = Some ''AB;bb\<newline>AB;z\<newline>AB;aa\<newline>AB;ccc\<newline>AB;bb\<newline>'', tmp_txt = None\<rparr>
        = (Inr (), f') \<and>
      emits f' out \<and>
      (\<forall>k n. filter (\<lambda>c. length c = n) (cities_of out k) =
             filter (\<lambda>c. length c = n) (cities_of ps k)))"
proof -
  have wf: "well_formed ''AB;bb\<newline>AB;z\<newline>AB;aa\<newline>AB;ccc\<newline>AB;bb\<newline>''" by code_simp
  have res: "tmp_txt (snd (formatter \<lparr>cities_txt = Some ''AB;bb\<newline>AB;z\<newline>AB;aa\<newline>AB;ccc\<newline>AB;bb\<newline>'', tmp_txt = None\<rparr>)) =
     Some ''AB;ccc\<newline>AB;bb\<newline>AB;aa\<newline>AB;bb\<newline>AB;z\<newline>''" by code_simp
  have "cities_txt \<lparr>cities_txt = Some ''AB;bb\<newline>AB;z\<newline>AB;aa\<newline>AB;ccc\<newline>AB;bb\<newline>'', tmp_txt = None\<rparr>
        = Some ''AB;bb\<newline>AB;z\<newline>AB;aa\<newline>AB;ccc\<newline>AB;bb\<newline>''" by simp
  from equal_lengths_keep_input_order [OF this wf] wf res show ?thesis by blast
qed

subsection \<open>C5: groups in insertion order\<close>

text \<open>
  C5. For every well-formed input the output is a sequence of blocks, one per state code
  and none empty, each holding the lines of one state only; the state codes of the
  blocks are the distinct codes of the input in the order of their first occurrence.
\<close>
theorem groups_in_insertion_order:
  assumes "cities_txt f = Some raw" and "well_formed raw"
  shows "\<exists>ps blocks f'. map parse_line (content raw) = map Inr ps \<and>
           formatter f = (Inr (), f') \<and>
           emits f' (concat (map (\<lambda>(k, v). map (Pair k) v) blocks)) \<and>
           map fst blocks = first_seen (map fst ps) \<and> distinct (map fst blocks) \<and>
           (\<forall>(k, v) \<in> set blocks. v \<noteq> [])"
proof -
  let ?ps = "map code_name (content raw)"
  let ?blocks = "map (\<lambda>(k, v). (k, sorted_py length True v)) (group_of ?ps)"
  note run = run_well_formed [OF assms]
  have w: "written (group_of ?ps) = concat (map (\<lambda>(k, v). map (Pair k) v) ?blocks)"
    by (rule written_blocks)
  have keys: "map fst ?blocks = first_seen (map fst ?ps)"
    by (simp add: group_of_def comp_def)
  have dist: "distinct (map fst ?blocks)" by (simp only: keys distinct_first_seen)
  have ne: "\<forall>(k, v) \<in> set ?blocks. v \<noteq> []"
    using group_values_nonempty [of _ _ ?ps] by (auto simp: sorted_py_eq_Nil)
  from run(1,3,4) w keys dist ne show ?thesis by (metis (no_types, lifting))
qed

theorem groups_in_insertion_order_witness:
  "well_formed ''CA;foo\<newline>AB;z\<newline>CA;foobar\<newline>NY;q\<newline>AB;yy\<newline>'' \<and>
   tmp_txt (snd (formatter \<lparr>cities_txt = Some ''CA;foo\<newline>AB;z\<newline>CA;foobar\<newline>NY;q\<newline>AB;yy\<newline>'', tmp_txt = None\<rparr>)) =
     Some ''CA;foobar\<newline>CA;foo\<newline>AB;yy\<newline>AB;z\<newline>NY;q\<newline>'' \<and>
   (\<exists>ps blocks f'.
      map parse_line (content ''CA;foo\<newline>AB;z\<newline>CA;foobar\<newline>NY;q\<newline>AB;yy\<newline>'') = map Inr ps \<and>
      formatter \<lparr>cities_txt = Some ''CA;foo\<newline>AB;z\<newline>CA;foobar\<newline>NY;q\<newline>AB;yy\<newline>'', tmp_txt = None\<rparr>
        = (Inr (), f') \<and>
      emits f' (concat (map (\<lambda>(k, v). map (Pair k) v) blocks)) \<and>
      map fst blocks = first_seen (map fst ps) \<and> distinct (map fst blocks) \<and>
      (\<forall>(k, v) \<in> set blocks. v \<noteq> []))"
proof -
  have wf: "well_formed ''CA;foo\<newline>AB;z\<newline>CA;foobar\<newline>NY;q\<newline>AB;yy\<newline>''" by code_simp
  have res: "tmp_txt (snd (formatter \<lparr>cities_txt = Some ''CA;foo\<newline>AB;z\<newline>CA;foobar\<newline>NY;q\<newline>AB;yy\<newline>'', tmp_txt = None\<rparr>)) =
     Some ''CA;foobar\<newline>CA;foo\<newline>AB;yy\<newline>AB;z\<newline>NY;q\<newline>''" by code_simp
  have "cities_txt \<lparr>cities_txt = Some ''CA;foo\<newline>AB;z\<newline>CA;foobar\<newline>NY;q\<newline>AB;yy\<newline>'', tmp_txt = None\<rparr>
        = Some ''CA;foo\<newline>AB;z\<newline>CA;foobar\<newline>NY;q\<newline>AB;yy\<newline>''" by simp
  from groups_in_insertion_order [OF this wf] wf res show ?thesis by blast
qed

subsection \<open>C6: a malformed line aborts the run before any output\<close>

text \<open>
  C6. For every input with a line that holds no \<^verbatim>\<open>;\<close>, the run ends with the parse error
  and the file system is as it was: the output file is not created, not truncated and
  not written.
\<close>
theorem malformed_line_aborts_before_output:
  assumes "cities_txt f = Some raw" and "l \<in> set (content raw)" and "SEP \<notin> set l"
  shows "formatter f = (Inl ValueError, f)"
proof -
  from assms(3) have "count_list l SEP \<noteq> 1" by (simp add: count_list_0_iff)
  with assms(2) have "\<exists>l \<in> set (content raw). count_list l SEP \<noteq> 1" by blast
  with assms(1) show ?thesis by (rule formatter_bad)
qed

text \<open>The malformed line of the specification, with an output file of an earlier run in
  place.\<close>
theorem malformed_line_aborts_before_output_witness:
  "''NOCODEHERE'' \<in> set (content ''AB;z\<newline>NOCODEHERE\<newline>CA;foo\<newline>'') \<and> SEP \<notin> set ''NOCODEHERE'' \<and>
   formatter \<lparr>cities_txt = Some ''AB;z\<newline>NOCODEHERE\<newline>CA;foo\<newline>'', tmp_txt = Some ''old''\<rparr>
     = (Inl ValueError, \<lparr>cities_txt = Some ''AB;z\<newline>NOCODEHERE\<newline>CA;foo\<newline>'', tmp_txt = Some ''old''\<rparr>)"
proof -
  have a: "cities_txt \<lparr>cities_txt = Some ''AB;z\<newline>NOCODEHERE\<newline>CA;foo\<newline>'', tmp_txt = Some ''old''\<rparr>
           = Some ''AB;z\<newline>NOCODEHERE\<newline>CA;foo\<newline>''" by simp
  have b: "''NOCODEHERE'' \<in> set (content ''AB;z\<newline>NOCODEHERE\<newline>CA;foo\<newline>'')" by code_simp
  have c: "SEP \<notin> set ''NOCODEHERE''" by code_simp
  from malformed_line_aborts_before_output [OF a b c] b c show ?thesis by simp
qed

subsection \<open>C7: what the loader strips\<close>

text \<open>
  C7, as amended. The loader's output is the input's lines with whitespace stripped at
  both ends: the line the parser receives is the raw line minus its trailing whitespace
  (the newline included) and minus its leading whitespace. It is the raw line minus the
  trailing whitespace alone exactly when the raw line is all whitespace or does not start
  with whitespace.
\<close>
theorem loader_strips_both_ends:
  "content raw = map (\<lambda>r. lstrip (rstrip r)) (readlines (universal_newlines raw)) \<and>
   (\<forall>r. lstrip (rstrip r) = rstrip r \<longleftrightarrow> (\<forall>c \<in> set r. isspace c) \<or> \<not> isspace (hd r))"
  using strip_eq_rstrip_iff by (simp add: content_def strip_rstrip_first)

theorem loader_strips_both_ends_witness:
  "content '' AB;x \<newline>CA;foo\<newline>'' = [''AB;x'', ''CA;foo''] \<and>
   lstrip (rstrip '' AB;x \<newline>'') \<noteq> rstrip '' AB;x \<newline>'' \<and>
   lstrip (rstrip ''CA;foo\<newline>'') = rstrip ''CA;foo\<newline>''"
proof -
  have a: "map (\<lambda>r. lstrip (rstrip r)) (readlines (universal_newlines '' AB;x \<newline>CA;foo\<newline>''))
           = [''AB;x'', ''CA;foo'']" by code_simp
  have b: "\<not> ((\<forall>c \<in> set '' AB;x \<newline>''. isspace c) \<or> \<not> isspace (hd '' AB;x \<newline>''))" by code_simp
  have c: "\<not> isspace (hd ''CA;foo\<newline>'')" by code_simp
  from loader_strips_both_ends [of "'' AB;x \<newline>CA;foo\<newline>''"] a b c show ?thesis by simp
qed

text \<open>C7 as stated fails: the raw line minus its trailing whitespace keeps the leading
  blank, the line the parser receives does not.\<close>
theorem leading_whitespace_counterexample:
  "readlines (universal_newlines '' AB;x\<newline>'') = ['' AB;x\<newline>''] \<and>
   rstrip '' AB;x\<newline>'' = '' AB;x'' \<and>
   content '' AB;x\<newline>'' = [''AB;x''] \<and>
   content '' AB;x\<newline>'' \<noteq> map rstrip (readlines (universal_newlines '' AB;x\<newline>''))"
  by code_simp

subsection \<open>C8: idempotence\<close>

text \<open>
  C8. For every well-formed input the run succeeds, its output is well-formed again, and
  the run that takes this output as its input succeeds and writes the same text: the
  output file, and with it the order within every state, is unchanged.
\<close>
theorem rerun_on_output_is_identity:
  assumes "cities_txt f = Some raw" and "well_formed raw"
  shows "\<exists>f' text. formatter f = (Inr (), f') \<and> tmp_txt f' = Some text \<and> well_formed text \<and>
           formatter (f'\<lparr>cities_txt := Some text\<rparr>) = (Inr (), f'\<lparr>cities_txt := Some text\<rparr>)"
proof -
  let ?out = "written (group_of (map code_name (content raw)))"
  let ?f' = "f\<lparr>tmp_txt := Some (render ?out)\<rparr>"
  let ?g = "?f'\<lparr>cities_txt := Some (render ?out)\<rparr>"
  have wf: "\<forall>l \<in> set (content raw). count_list l SEP = 1"
    using assms(2) by (simp add: well_formed_def)
  have first: "formatter f = (Inr (), ?f')" using assms(1) wf by (rule formatter_wf)
  have wf2: "\<forall>l \<in> set (content (render ?out)). count_list l SEP = 1"
    using wf by (rule second_run_content(2))
  have recs: "map code_name (content (render ?out)) = ?out"
    using wf by (rule second_run_content(3))
  have "cities_txt ?g = Some (render ?out)" by simp
  from formatter_wf [OF this wf2]
  have "formatter ?g = (Inr (), ?g\<lparr>tmp_txt := Some (render ?out)\<rparr>)"
    by (simp only: recs written_group_of_written)
  then have second: "formatter ?g = (Inr (), ?g)" by simp
  have "tmp_txt ?f' = Some (render ?out)" by simp
  moreover have "well_formed (render ?out)" using wf2 by (simp add: well_formed_def)
  ultimately show ?thesis using first second by blast
qed

theorem rerun_on_output_is_identity_witness:
  "well_formed ''AB;bb\<newline>CA;foo\<newline>AB;z\<newline>AB;aa\<newline>AB;ccc\<newline>'' \<and>
   tmp_txt (snd (formatter \<lparr>cities_txt = Some ''AB;bb\<newline>CA;foo\<newline>AB;z\<newline>AB;aa\<newline>AB;ccc\<newline>'', tmp_txt = None\<rparr>)) =
     Some ''AB;ccc\<newline>AB;bb\<newline>AB;aa\<newline>AB;z\<newline>CA;foo\<newline>'' \<and>
   (\<exists>f' text.
      formatter \<lparr>cities_txt = Some ''AB;bb\<newline>CA;foo\<newline>AB;z\<newline>AB;aa\<newline>AB;ccc\<newline>'', tmp_txt = None\<rparr>
        = (Inr (), f') \<and>
      tmp_txt f' = Some text \<and> well_formed text \<and>
      formatter (f'\<lparr>cities_txt := Some text\<rparr>) = (Inr (), f'\<lparr>cities_txt := Some text\<rparr>))"
proof -
  have wf: "well_formed ''AB;bb\<newline>CA;foo\<newline>AB;z\<newline>AB;aa\<newline>AB;ccc\<newline>''" by code_simp
  have res: "tmp_txt (snd (formatter \<lparr>cities_txt = Some ''AB;bb\<newline>CA;foo\<newline>AB;z\<newline>AB;aa\<newline>AB;ccc\<newline>'', tmp_txt = None\<rparr>)) =
     Some ''AB;ccc\<newline>AB;bb\<newline>AB;aa\<newline>AB;z\<newline>CA;foo\<newline>''" by code_simp
  have "cities_txt \<lparr>cities_txt = Some ''AB;bb\<newline>CA;foo\<newline>AB;z\<newline>AB;aa\<newline>AB;ccc\<newline>'', tmp_txt = None\<rparr>
        = Some ''AB;bb\<newline>CA;foo\<newline>AB;z\<newline>AB;aa\<newline>AB;ccc\<newline>''" by simp
  from rerun_on_output_is_identity [OF this wf] wf res show ?thesis by blast
qed

subsection \<open>C9: determinism\<close>



subsection \<open>C10: empty fields\<close>

text \<open>
  C10. A line of a well-formed input with one \<^verbatim>\<open>;\<close> and an empty state code or an empty
  city name parses to its record; the record is grouped under its code like any other,
  and its line is among the lines of the output.
\<close>
theorem empty_field_accepted:
  assumes "cities_txt f = Some raw" and "well_formed raw"
    and "code @ SEP # name \<in> set (content raw)" and "code = [] \<or> name = []"
  shows "parse_line (code @ SEP # name) = Inr (code, name) \<and>
         (\<exists>st v. group_loop [] (content raw) = Inr st \<and> (code, v) \<in> set st \<and> name \<in> set v) \<and>
         (\<exists>out f'. formatter f = (Inr (), f') \<and> emits f' out \<and> (code, name) \<in> set out)"
proof -
  let ?l = "code @ SEP # name"
  let ?ps = "map code_name (content raw)"
  let ?out = "written (group_of ?ps)"
  note run = run_well_formed [OF assms(1,2)]
  have "\<forall>l \<in> set (content raw). count_list l SEP = 1"
    using assms(2) by (simp add: well_formed_def)
  then have "count_list ?l SEP = 1" using assms(3) by blast
  then have nosep: "SEP \<notin> set code" "SEP \<notin> set name" by (simp_all add: count_list_0_iff)
  then have parse: "parse_line ?l = Inr (code, name)" by (rule parse_line_fields)
  have "code_name ?l = (code, name)" using nosep(1) by (rule code_name_joined)
  then have mem: "(code, name) \<in> set ?ps" using assms(3) by force
  then have "fst (code, name) \<in> fst ` set ?ps" by (rule imageI)
  then have "code \<in> set (first_seen (map fst ?ps))" by (simp only: set_first_seen set_map fst_conv)
  then have "(code, cities_of ?ps code) \<in> set (group_of ?ps)" by (simp add: group_of_def)
  moreover have "name \<in> set (cities_of ?ps code)" using mem by (rule cities_of_member)
  ultimately have grouped:
    "\<exists>st v. group_loop [] (content raw) = Inr st \<and> (code, v) \<in> set st \<and> name \<in> set v"
    using run(2) by blast
  have "set ?out = set ?ps" using mset_written_group_of by (metis set_mset_mset)
  with mem have "(code, name) \<in> set ?out" by simp
  with run(3,4) have "\<exists>out f'. formatter f = (Inr (), f') \<and> emits f' out \<and> (code, name) \<in> set out"
    by blast
  with parse grouped show ?thesis by simp
qed

theorem empty_field_accepted_witness:
  "well_formed ''AB;\<newline>;name\<newline>AB;x\<newline>'' \<and>
   ''AB'' @ SEP # [] \<in> set (content ''AB;\<newline>;name\<newline>AB;x\<newline>'') \<and>
   tmp_txt (snd (formatter \<lparr>cities_txt = Some ''AB;\<newline>;name\<newline>AB;x\<newline>'', tmp_txt = None\<rparr>)) =
     Some ''AB;x\<newline>AB;\<newline>;name\<newline>'' \<and>
   parse_line (''AB'' @ SEP # []) = Inr (''AB'', []) \<and>
   (\<exists>st v. group_loop [] (content ''AB;\<newline>;name\<newline>AB;x\<newline>'') = Inr st \<and>
            (''AB'', v) \<in> set st \<and> [] \<in> set v) \<and>
   (\<exists>out f'. formatter \<lparr>cities_txt = Some ''AB;\<newline>;name\<newline>AB;x\<newline>'', tmp_txt = None\<rparr> = (Inr (), f') \<and>
              emits f' out \<and> (''AB'', []) \<in> set out)"
proof -
  have a: "cities_txt \<lparr>cities_txt = Some ''AB;\<newline>;name\<newline>AB;x\<newline>'', tmp_txt = None\<rparr>
           = Some ''AB;\<newline>;name\<newline>AB;x\<newline>''" by simp
  have b: "well_formed ''AB;\<newline>;name\<newline>AB;x\<newline>''" by code_simp
  have c: "''AB'' @ SEP # [] \<in> set (content ''AB;\<newline>;name\<newline>AB;x\<newline>'')" by code_simp
  have d: "''AB'' = [] \<or> ([]::string) = []" by simp
  have res: "tmp_txt (snd (formatter \<lparr>cities_txt = Some ''AB;\<newline>;name\<newline>AB;x\<newline>'', tmp_txt = None\<rparr>)) =
     Some ''AB;x\<newline>AB;\<newline>;name\<newline>''" by code_simp
  from empty_field_accepted [OF a b c d] b c res show ?thesis by blast
qed

end
